theory Spec2Isabelle
  imports Main "HOL-Library.Word" "HOL-Library.Signed_Division"
begin

unbundle bit_operations_syntax

section \<open>Data model of matrix.c\<close>

text \<open>
  Matrix elements are \<^verbatim>\<open>uint32_t\<close>: 32-bit words whose addition and multiplication
  wrap modulo \<open>2 ^ 32\<close>. The dimensions and every loop index are \<^verbatim>\<open>ssize_t\<close>; they are
  modelled as \<open>int\<close>, signed and with C's truncating division (\<open>sdiv\<close>, \<open>smod\<close>). Under
  a context whose element count is the length of an allocated buffer, every index the loops
  compute stays below twice that length, so the 64-bit range is not left and no wrap-around
  is written out for them.
\<close>

type_synonym u32 = "32 word"

text \<open>The file's static variables, threaded through the functions that read or write them.\<close>

record globals =
  g_seed :: u32
  g_width :: int
  g_height :: int
  g_elements :: int
  g_nthreads :: int

text \<open>The values the static initialisers give at process start.\<close>

definition initial_globals :: globals where
  "initial_globals =
     \<lparr>g_seed = 0, g_width = 0, g_height = 0, g_elements = 0, g_nthreads = 1\<rparr>"

text \<open>
  A matrix is a heap buffer of \<^verbatim>\<open>uint32_t\<close>, modelled as the list of its cells. C does not
  check an index: a read or write outside the buffer is undefined behaviour, which the model
  reports as the error \<open>OutOfBounds\<close>. Dividing by a zero width is undefined as well.
\<close>

datatype error = OutOfBounds | DivisionByZero

definition rd :: "u32 list \<Rightarrow> int \<Rightarrow> error + u32" where
  "rd matrix i =
     (if 0 \<le> i \<and> i < int (length matrix) then Inr (matrix ! nat i) else Inl OutOfBounds)"

definition wr :: "u32 list \<Rightarrow> int \<Rightarrow> u32 \<Rightarrow> error + u32 list" where
  "wr matrix i v =
     (if 0 \<le> i \<and> i < int (length matrix) then Inr (matrix[nat i := v]) else Inl OutOfBounds)"

section \<open>Utility functions\<close>

text \<open>\<^verbatim>\<open>g_seed = (214013 * g_seed + 2531011); return (g_seed >> 16) & 0x7FFF;\<close>\<close>

definition fast_rand :: "globals \<Rightarrow> u32 \<times> globals" where
  "fast_rand g =
     (let seed = 214013 * g_seed g + 2531011
      in (drop_bit 16 seed AND 0x7FFF, g\<lparr>g_seed := seed\<rparr>))"

definition set_seed :: "u32 \<Rightarrow> globals \<Rightarrow> globals" where
  "set_seed seed g = g\<lparr>g_seed := seed\<rparr>"

definition set_nthreads :: "int \<Rightarrow> globals \<Rightarrow> globals" where
  "set_nthreads count g = g\<lparr>g_nthreads := count\<rparr>"

definition set_dimensions :: "int \<Rightarrow> globals \<Rightarrow> globals" where
  "set_dimensions order g =
     (let g1 = g\<lparr>g_width := order\<rparr>;
          g2 = g1\<lparr>g_height := order\<rparr>
      in g2\<lparr>g_elements := g_width g2 * g_height g2\<rparr>)"

section \<open>Matrix initialisations\<close>

text \<open>
  \<^verbatim>\<open>calloc(g_elements, sizeof(uint32_t))\<close>: a zero-filled buffer of \<open>g_elements\<close> cells. For a
  count that is not positive no cell can be accessed, which is the empty list. The
  allocation is taken to succeed; the source does not test its result.
\<close>

definition new_matrix :: "globals \<Rightarrow> u32 list" where
  "new_matrix g = replicate (nat (g_elements g)) 0"

text \<open>\<^verbatim>\<open>for (ssize_t i = 0; i < g_width; i++) matrix[i * g_width + i] = 1;\<close>\<close>

function identity_loop :: "globals \<Rightarrow> int \<Rightarrow> u32 list \<Rightarrow> error + u32 list" where
  "identity_loop g i matrix =
     (if i < g_width g then
        (case wr matrix (i * g_width g + i) 1 of
           Inl e \<Rightarrow> Inl e
         | Inr matrix' \<Rightarrow> identity_loop g (i + 1) matrix')
      else Inr matrix)"
  by pat_completeness auto
termination
  by (relation "measure (\<lambda>(g, i, matrix). nat (g_width g - i))") auto

definition identity_matrix :: "globals \<Rightarrow> error + u32 list" where
  "identity_matrix g = identity_loop g 0 (new_matrix g)"

text \<open>
  \<^verbatim>\<open>set_seed(seed); for (ssize_t i = 0; i < g_elements; i++) matrix[i] = fast_rand();\<close>
  \<open>random_matrix\<close> writes \<open>g_seed\<close>, so it returns the globals next to the matrix.
\<close>

function random_loop :: "int \<Rightarrow> u32 list \<Rightarrow> globals \<Rightarrow> error + (u32 list \<times> globals)" where
  "random_loop i matrix g =
     (if i < g_elements g then
        (case fast_rand g of
           (v, g') \<Rightarrow>
             (case wr matrix i v of
                Inl e \<Rightarrow> Inl e
              | Inr matrix' \<Rightarrow> random_loop (i + 1) matrix' g'))
      else Inr (matrix, g))"
  by pat_completeness auto
termination
  by (relation "measure (\<lambda>(i, matrix, g). nat (g_elements g - i))")
     (auto simp: fast_rand_def Let_def)

definition random_matrix :: "u32 \<Rightarrow> globals \<Rightarrow> error + (u32 list \<times> globals)" where
  "random_matrix seed g = random_loop 0 (new_matrix g) (set_seed seed g)"

section \<open>Matrix operations\<close>

text \<open>
  \<^verbatim>\<open>for (ssize_t i = 0; i < g_elements; i++) result[i] = matrix[g_elements - 1 - i];\<close>
\<close>

function reversed_loop :: "globals \<Rightarrow> u32 list \<Rightarrow> int \<Rightarrow> u32 list \<Rightarrow> error + u32 list" where
  "reversed_loop g matrix i result =
     (if i < g_elements g then
        (case rd matrix (g_elements g - 1 - i) of
           Inl e \<Rightarrow> Inl e
         | Inr v \<Rightarrow>
             (case wr result i v of
                Inl e \<Rightarrow> Inl e
              | Inr result' \<Rightarrow> reversed_loop g matrix (i + 1) result'))
      else Inr result)"
  by pat_completeness auto
termination
  by (relation "measure (\<lambda>(g, matrix, i, result). nat (g_elements g - i))") auto

definition reversed :: "globals \<Rightarrow> u32 list \<Rightarrow> error + u32 list" where
  "reversed g matrix = reversed_loop g matrix 0 (new_matrix g)"

text \<open>\<^verbatim>\<open>for (ssize_t c=0; c<g_elements; c++) result[c] = matrix[c] + scalar;\<close>\<close>

function scalar_add_loop ::
  "globals \<Rightarrow> u32 list \<Rightarrow> u32 \<Rightarrow> int \<Rightarrow> u32 list \<Rightarrow> error + u32 list" where
  "scalar_add_loop g matrix scalar c result =
     (if c < g_elements g then
        (case rd matrix c of
           Inl e \<Rightarrow> Inl e
         | Inr v \<Rightarrow>
             (case wr result c (v + scalar) of
                Inl e \<Rightarrow> Inl e
              | Inr result' \<Rightarrow> scalar_add_loop g matrix scalar (c + 1) result'))
      else Inr result)"
  by pat_completeness auto
termination
  by (relation "measure (\<lambda>(g, matrix, scalar, c, result). nat (g_elements g - c))") auto

definition scalar_add :: "globals \<Rightarrow> u32 list \<Rightarrow> u32 \<Rightarrow> error + u32 list" where
  "scalar_add g matrix scalar = scalar_add_loop g matrix scalar 0 (new_matrix g)"

text \<open>
  The innermost loop of \<open>matrix_mul\<close>:
  \<^verbatim>\<open>for (; second_column < g_elements; second_column += g_width)
     result[c] += (matrix_a[first_row++] * matrix_b[second_column]);\<close>
  It stops on every input: with a positive width \<open>second_column\<close> climbs to \<open>g_elements\<close>,
  with a negative one it falls below the buffer, and with width zero \<open>first_row\<close> runs off
  the end of \<open>matrix_a\<close>.
\<close>

function mul_inner ::
  "globals \<Rightarrow> u32 list \<Rightarrow> u32 list \<Rightarrow> int \<Rightarrow> int \<Rightarrow> int \<Rightarrow> u32 list \<Rightarrow> error + u32 list" where
  "mul_inner g matrix_a matrix_b c first_row second_column result =
     (if second_column < g_elements g then
        (case rd matrix_a first_row of
           Inl e \<Rightarrow> Inl e
         | Inr x \<Rightarrow>
             (case rd matrix_b second_column of
                Inl e \<Rightarrow> Inl e
              | Inr y \<Rightarrow>
                  (case rd result c of
                     Inl e \<Rightarrow> Inl e
                   | Inr z \<Rightarrow>
                       (case wr result c (z + x * y) of
                          Inl e \<Rightarrow> Inl e
                        | Inr result' \<Rightarrow>
                            mul_inner g matrix_a matrix_b c (first_row + 1)
                              (second_column + g_width g) result'))))
      else Inr result)"
  by pat_completeness auto
termination
  by (relation "measure (\<lambda>(g, matrix_a, matrix_b, c, first_row, second_column, result).
        if 0 < g_width g then nat (g_elements g - second_column)
        else if g_width g < 0 then nat (second_column + 1)
        else length matrix_a - nat first_row)")
     (auto simp: rd_def split: if_splits)

text \<open>
  The middle loop has no increment and ends in \<^verbatim>\<open>break\<close>: its body runs once when
  \<open>(c / g_width) * g_width < g_elements\<close> and not at all otherwise.
\<close>

definition mul_cell ::
  "globals \<Rightarrow> u32 list \<Rightarrow> u32 list \<Rightarrow> int \<Rightarrow> u32 list \<Rightarrow> error + u32 list" where
  "mul_cell g matrix_a matrix_b c result =
     (if g_width g = 0 then Inl DivisionByZero
      else
        (let first_row = (c sdiv g_width g) * g_width g
         in if first_row < g_elements g then
              mul_inner g matrix_a matrix_b c first_row (c smod g_width g) result
            else Inr result))"

text \<open>The outer loop, \<^verbatim>\<open>for (ssize_t c=0; c<g_elements; c++)\<close>, over the cells of the result.\<close>

function mul_loop ::
  "globals \<Rightarrow> u32 list \<Rightarrow> u32 list \<Rightarrow> int \<Rightarrow> u32 list \<Rightarrow> error + u32 list" where
  "mul_loop g matrix_a matrix_b c result =
     (if c < g_elements g then
        (case mul_cell g matrix_a matrix_b c result of
           Inl e \<Rightarrow> Inl e
         | Inr result' \<Rightarrow> mul_loop g matrix_a matrix_b (c + 1) result')
      else Inr result)"
  by pat_completeness auto
termination
  by (relation "measure (\<lambda>(g, matrix_a, matrix_b, c, result). nat (g_elements g - c))") auto

definition matrix_mul :: "globals \<Rightarrow> u32 list \<Rightarrow> u32 list \<Rightarrow> error + u32 list" where
  "matrix_mul g matrix_a matrix_b = mul_loop g matrix_a matrix_b 0 (new_matrix g)"

text \<open>
  \<^verbatim>\<open>for (int c=0; c<exponent-1 && exponent!=0; c++) result = matrix_mul(result, matrix);\<close>
  The counter is an \<^verbatim>\<open>int\<close> compared with the \<^verbatim>\<open>uint32_t\<close> value \<open>exponent - 1\<close>: the usual
  arithmetic conversions make the comparison unsigned, and \<open>exponent - 1\<close> wraps to
  \<open>2 ^ 32 - 1\<close> when the exponent is zero. The counter is modelled by its 32-bit pattern,
  incremented with wrap-around: below \<open>2 ^ 31\<close> iterations that is the value C defines, and
  beyond them (where C leaves the signed increment undefined) it is the two's-complement
  increment of the machine.
\<close>

function pow_loop :: "globals \<Rightarrow> u32 list \<Rightarrow> u32 \<Rightarrow> u32 \<Rightarrow> u32 list \<Rightarrow> error + u32 list" where
  "pow_loop g matrix exponent c result =
     (if c < exponent - 1 \<and> exponent \<noteq> 0 then
        (case matrix_mul g result matrix of
           Inl e \<Rightarrow> Inl e
         | Inr result' \<Rightarrow> pow_loop g matrix exponent (c + 1) result')
      else Inr result)"
  by pat_completeness auto
termination
proof (relation "measure (\<lambda>(g, matrix, exponent, c, result). unat (exponent - 1) - unat c)")
  show "wf (measure (\<lambda>(g, matrix, exponent, c, result). unat (exponent - 1) - unat c))"
    by simp
next
  fix g :: globals and matrix result result' :: "u32 list" and exponent c :: u32
  assume "c < exponent - 1 \<and> exponent \<noteq> 0"
  then have below: "unat c < unat (exponent - 1)"
    by (simp add: word_less_nat_alt)
  moreover have "unat (exponent - 1) < 2 ^ 32"
    using unsigned_less [of "exponent - 1"] by simp
  ultimately have "unat (c + 1) = unat c + 1"
    by (simp add: unat_word_ariths)
  with below
  show "((g, matrix, exponent, c + 1, result'), (g, matrix, exponent, c, result))
          \<in> measure (\<lambda>(g, matrix, exponent, c, result). unat (exponent - 1) - unat c)"
    by simp
qed

text \<open>After the loop, \<^verbatim>\<open>if (exponent==0) result = identity_matrix();\<close>\<close>

definition matrix_pow :: "globals \<Rightarrow> u32 list \<Rightarrow> u32 \<Rightarrow> error + u32 list" where
  "matrix_pow g matrix exponent =
     (case pow_loop g matrix exponent 0 (new_matrix g) of
        Inl e \<Rightarrow> Inl e
      | Inr result \<Rightarrow> if exponent = 0 then identity_matrix g else Inr result)"

section \<open>Computations\<close>

text \<open>\<^verbatim>\<open>for (ssize_t c=0; c<g_elements; c++) sum_all_elements += matrix[c];\<close>\<close>

function sum_loop :: "globals \<Rightarrow> u32 list \<Rightarrow> int \<Rightarrow> u32 \<Rightarrow> error + u32" where
  "sum_loop g matrix c sum_all_elements =
     (if c < g_elements g then
        (case rd matrix c of
           Inl e \<Rightarrow> Inl e
         | Inr v \<Rightarrow> sum_loop g matrix (c + 1) (sum_all_elements + v))
      else Inr sum_all_elements)"
  by pat_completeness auto
termination
  by (relation "measure (\<lambda>(g, matrix, c, s). nat (g_elements g - c))") auto

definition get_sum :: "globals \<Rightarrow> u32 list \<Rightarrow> error + u32" where
  "get_sum g matrix = sum_loop g matrix 0 0"

text \<open>
  \<^verbatim>\<open>uint32_t matrix_smallest_val = matrix[0];
  for (ssize_t c=0; c<g_elements; c++)
    if (matrix[c] < matrix_smallest_val) matrix_smallest_val = matrix[c];\<close>
  The first read happens before the loop tests the element count.
\<close>

function minimum_loop :: "globals \<Rightarrow> u32 list \<Rightarrow> int \<Rightarrow> u32 \<Rightarrow> error + u32" where
  "minimum_loop g matrix c matrix_smallest_val =
     (if c < g_elements g then
        (case rd matrix c of
           Inl e \<Rightarrow> Inl e
         | Inr v \<Rightarrow>
             minimum_loop g matrix (c + 1)
               (if v < matrix_smallest_val then v else matrix_smallest_val))
      else Inr matrix_smallest_val)"
  by pat_completeness auto
termination
  by (relation "measure (\<lambda>(g, matrix, c, s). nat (g_elements g - c))") auto

definition get_minimum :: "globals \<Rightarrow> u32 list \<Rightarrow> error + u32" where
  "get_minimum g matrix =
     (case rd matrix 0 of
        Inl e \<Rightarrow> Inl e
      | Inr v0 \<Rightarrow> minimum_loop g matrix 0 v0)"

section \<open>Reference definitions\<close>

text \<open>
  The dimension context of order \<open>n\<close>: what \<open>set_dimensions n\<close> leaves in the three
  dimension variables.
\<close>

definition square_context :: "globals \<Rightarrow> nat \<Rightarrow> bool" where
  "square_context g n \<longleftrightarrow>
     g_width g = int n \<and> g_height g = int n \<and> g_elements g = int n * int n"

text \<open>
  The matrix product as the specification words it: cell \<open>c\<close> of the result, with
  \<open>row = c div w\<close> and \<open>col = c mod w\<close>, is the sum over \<open>k\<close> in \<open>[0, w)\<close> of
  \<open>a[row * w + k] * b[k * w + col]\<close>, in 32-bit wrap-around arithmetic.
\<close>

definition dot_product :: "nat \<Rightarrow> u32 list \<Rightarrow> u32 list \<Rightarrow> nat \<Rightarrow> u32" where
  "dot_product w a b c = (\<Sum>k = 0..<w. a ! (c div w * w + k) * b ! (k * w + c mod w))"

definition matrix_product :: "nat \<Rightarrow> u32 list \<Rightarrow> u32 list \<Rightarrow> u32 list" where
  "matrix_product w a b = map (dot_product w a b) [0..<w * w]"

text \<open>The identity matrix as the specification words it: one on the diagonal, zero elsewhere.\<close>

definition identity_spec :: "nat \<Rightarrow> u32 list" where
  "identity_spec w = map (\<lambda>c. if c div w = c mod w then 1 else 0) [0..<w * w]"

text \<open>The values \<open>k\<close> successive calls of \<open>fast_rand\<close> return, and the globals they leave.\<close>

fun draws :: "nat \<Rightarrow> globals \<Rightarrow> u32 list \<times> globals" where
  "draws 0 g = ([], g)"
| "draws (Suc k) g =
     (let (v, g') = fast_rand g; (vs, g'') = draws k g' in (v # vs, g''))"

section \<open>The loops, characterised\<close>

text \<open>
  The recursion equations of the loops are unfolded one iteration at a time, by hand, in the
  inductions below.
\<close>

declare identity_loop.simps [simp del] random_loop.simps [simp del]
  reversed_loop.simps [simp del] scalar_add_loop.simps [simp del]
  mul_inner.simps [simp del] mul_loop.simps [simp del] pow_loop.simps [simp del]
  sum_loop.simps [simp del] minimum_loop.simps [simp del]
  draws.simps(2) [simp del]

subsection \<open>Buffer accesses inside the buffer\<close>

lemma rd_in_range: "i < length matrix \<Longrightarrow> rd matrix (int i) = Inr (matrix ! i)"
  by (simp add: rd_def)

lemma wr_in_range: "i < length matrix \<Longrightarrow> wr matrix (int i) v = Inr (matrix[i := v])"
  by (simp add: wr_def)

subsection \<open>Reversal\<close>

lemma reversed_loop_spec:
  assumes "g_elements g = int n" and "length matrix = n"
  shows "length result = n \<Longrightarrow> i \<le> n \<Longrightarrow>
    \<exists>r. reversed_loop g matrix (int i) result = Inr r \<and> length r = n \<and>
        (\<forall>j<i. r ! j = result ! j) \<and> (\<forall>j. i \<le> j \<and> j < n \<longrightarrow> r ! j = matrix ! (n - 1 - j))"
proof (induction "n - i" arbitrary: i result)
  case 0
  then have "i = n" by simp
  with assms "0.prems" show ?case
    by (subst reversed_loop.simps) auto
next
  case (Suc k)
  then have lt: "i < n" by simp
  let ?v = "matrix ! (n - 1 - i)"
  let ?result' = "result[i := ?v]"
  have idx: "int n - 1 - int i = int (n - 1 - i)"
    using lt by simp
  have rdv: "rd matrix (g_elements g - 1 - int i) = Inr ?v"
    using assms lt by (simp only: idx rd_in_range)
  have wrv: "wr result (int i) ?v = Inr ?result'"
    using Suc.prems lt by (simp add: wr_in_range)
  have step: "reversed_loop g matrix (int i) result = reversed_loop g matrix (int (Suc i)) ?result'"
    using assms lt rdv wrv by (subst reversed_loop.simps) (simp add: add.commute)
  have "k = n - Suc i" using Suc.hyps(2) by simp
  moreover have "length ?result' = n" using Suc.prems by simp
  moreover have "Suc i \<le> n" using lt by simp
  ultimately obtain r where r: "reversed_loop g matrix (int (Suc i)) ?result' = Inr r"
    "length r = n" "\<forall>j<Suc i. r ! j = ?result' ! j"
    "\<forall>j. Suc i \<le> j \<and> j < n \<longrightarrow> r ! j = matrix ! (n - 1 - j)"
    using Suc.hyps(1) [of "Suc i" ?result'] by blast
  have "\<forall>j<i. r ! j = result ! j"
    using r(3) by (simp add: nth_list_update)
  moreover have "r ! i = ?v"
    using r(3) Suc.prems lt by simp
  then have "\<forall>j. i \<le> j \<and> j < n \<longrightarrow> r ! j = matrix ! (n - 1 - j)"
    using r(4) by (metis Suc_leI le_neq_implies_less)
  ultimately show ?case
    using step r(1,2) by simp
qed

lemma reversed_eq_rev:
  assumes "g_elements g = int (length matrix)"
  shows "reversed g matrix = Inr (rev matrix)"
proof -
  obtain r where r: "reversed g matrix = Inr r" "length r = length matrix"
    "\<forall>j. j < length matrix \<longrightarrow> r ! j = matrix ! (length matrix - 1 - j)"
    using reversed_loop_spec [OF assms refl, of "new_matrix g" 0] assms
    by (auto simp: reversed_def new_matrix_def)
  have "r = rev matrix"
    using r(2,3) by (intro nth_equalityI) (simp_all add: rev_nth)
  with r(1) show ?thesis by simp
qed

subsection \<open>Scalar addition, sum and minimum\<close>

lemma scalar_add_loop_spec:
  assumes "g_elements g = int n" and "length matrix = n"
  shows "length result = n \<Longrightarrow> c \<le> n \<Longrightarrow>
    scalar_add_loop g matrix scalar (int c) result =
      Inr (take c result @ map (\<lambda>v. v + scalar) (drop c matrix))"
proof (induction "n - c" arbitrary: c result)
  case 0
  with assms show ?case
    by (subst scalar_add_loop.simps) simp
next
  case (Suc k)
  then have lt: "c < n" by simp
  let ?result' = "result[c := matrix ! c + scalar]"
  have step: "scalar_add_loop g matrix scalar (int c) result =
      scalar_add_loop g matrix scalar (int (Suc c)) ?result'"
    using assms lt Suc.prems
    by (subst scalar_add_loop.simps) (simp add: rd_in_range wr_in_range add.commute)
  have "scalar_add_loop g matrix scalar (int (Suc c)) ?result' =
      Inr (take (Suc c) ?result' @ map (\<lambda>v. v + scalar) (drop (Suc c) matrix))"
    using Suc.hyps(2) Suc.prems lt by (intro Suc.hyps(1)) simp_all
  moreover have "take (Suc c) ?result' = take c result @ [matrix ! c + scalar]"
    using Suc.prems lt by (simp add: take_Suc_conv_app_nth)
  moreover have "drop c matrix = matrix ! c # drop (Suc c) matrix"
    using assms lt by (simp add: Cons_nth_drop_Suc)
  ultimately show ?case
    using step by simp
qed

lemma scalar_add_eq_map:
  assumes "g_elements g = int (length matrix)"
  shows "scalar_add g matrix scalar = Inr (map (\<lambda>v. v + scalar) matrix)"
  using scalar_add_loop_spec [OF assms refl, of "new_matrix g" 0 scalar] assms
  by (simp add: scalar_add_def new_matrix_def)

lemma sum_loop_spec:
  assumes "g_elements g = int (length matrix)"
  shows "c \<le> length matrix \<Longrightarrow>
    sum_loop g matrix (int c) acc = Inr (acc + sum_list (drop c matrix))"
proof (induction "length matrix - c" arbitrary: c acc)
  case 0
  with assms show ?case
    by (subst sum_loop.simps) simp
next
  case (Suc k)
  then have lt: "c < length matrix" by simp
  have step: "sum_loop g matrix (int c) acc = sum_loop g matrix (int (Suc c)) (acc + matrix ! c)"
    using assms lt by (subst sum_loop.simps) (simp add: rd_in_range add.commute)
  have "sum_loop g matrix (int (Suc c)) (acc + matrix ! c) =
      Inr (acc + matrix ! c + sum_list (drop (Suc c) matrix))"
    using Suc.hyps(2) lt by (intro Suc.hyps(1)) simp_all
  moreover have "drop c matrix = matrix ! c # drop (Suc c) matrix"
    using lt by (simp add: Cons_nth_drop_Suc)
  ultimately show ?case
    using step by (simp add: add.assoc)
qed

lemma get_sum_eq_sum_list:
  assumes "g_elements g = int (length matrix)"
  shows "get_sum g matrix = Inr (sum_list matrix)"
  using sum_loop_spec [OF assms, of 0 0] by (simp add: get_sum_def)

lemma sum_list_add_scalar:
  "sum_list (map (\<lambda>v. v + scalar) xs) = sum_list xs + scalar * of_nat (length xs)"
  for scalar :: u32
  by (induction xs) (simp_all add: algebra_simps)

lemma minimum_loop_spec:
  assumes "g_elements g = int (length matrix)"
  shows "c \<le> length matrix \<Longrightarrow>
    minimum_loop g matrix (int c) smallest = Inr (fold min (drop c matrix) smallest)"
proof (induction "length matrix - c" arbitrary: c smallest)
  case 0
  with assms show ?case
    by (subst minimum_loop.simps) simp
next
  case (Suc k)
  then have lt: "c < length matrix" by simp
  let ?s = "if matrix ! c < smallest then matrix ! c else smallest"
  have step: "minimum_loop g matrix (int c) smallest = minimum_loop g matrix (int (Suc c)) ?s"
    using assms lt by (subst minimum_loop.simps) (simp add: rd_in_range add.commute)
  have "minimum_loop g matrix (int (Suc c)) ?s = Inr (fold min (drop (Suc c) matrix) ?s)"
    using Suc.hyps(2) lt by (intro Suc.hyps(1)) simp_all
  moreover have "drop c matrix = matrix ! c # drop (Suc c) matrix"
    using lt by (simp add: Cons_nth_drop_Suc)
  moreover have "?s = min (matrix ! c) smallest"
    by (auto simp: min_def)
  ultimately show ?case
    using step by simp
qed

lemma get_minimum_eq_Min:
  assumes "g_elements g = int (length matrix)" and "matrix \<noteq> []"
  shows "get_minimum g matrix = Inr (Min (set matrix))"
proof -
  obtain x xs where m: "matrix = x # xs"
    using assms(2) by (cases matrix) auto
  have "get_minimum g matrix = minimum_loop g matrix (int 0) x"
    by (simp add: get_minimum_def rd_def m)
  also have "\<dots> = Inr (fold min matrix x)"
    using minimum_loop_spec [OF assms(1), of 0 x] by simp
  also have "fold min matrix x = Min (set matrix)"
    using Min.set_eq_fold [of x xs] by (simp add: m)
  finally show ?thesis .
qed

lemma get_minimum_empty: "get_minimum g [] = Inl OutOfBounds"
  by (simp add: get_minimum_def rd_def)

subsection \<open>Matrix multiplication\<close>

lemma sdiv_nonneg: "0 \<le> k \<Longrightarrow> 0 < l \<Longrightarrow> k sdiv l = k div l" for k l :: int
  by (cases "k = 0") (simp_all add: signed_divide_int_def)

lemma smod_nonneg: "0 \<le> k \<Longrightarrow> 0 < l \<Longrightarrow> k smod l = k mod l" for k l :: int
  by (cases "k = 0") (simp_all add: signed_modulo_int_def)

lemma below_elements: "g_elements g = int n \<Longrightarrow> c < n \<Longrightarrow> int c < g_elements g"
  by simp

lemma not_below_elements:
  "g_elements g = int n \<Longrightarrow> \<not> c < n \<Longrightarrow> \<not> int c < g_elements g"
  by simp

lemma cell_index_bound: "i < w \<Longrightarrow> j < w \<Longrightarrow> i * w + j < w * w" for i j w :: nat
proof -
  assume "i < w" and "j < w"
  then have "i * w + j < Suc i * w" by simp
  also have "\<dots> \<le> w * w" using \<open>i < w\<close> by (intro mult_le_mono1) simp
  finally show ?thesis .
qed

lemma mul_inner_spec:
  assumes "g_width g = int w" and "g_elements g = int (w * w)"
    and "length a = w * w" and "length b = w * w"
    and "c < w * w" and "row < w" and "col < w"
  shows "length result = w * w \<Longrightarrow> j \<le> w \<Longrightarrow>
    mul_inner g a b (int c) (int (row * w + j)) (int (j * w + col)) result =
      Inr (result[c := result ! c + (\<Sum>k = j..<w. a ! (row * w + k) * b ! (k * w + col))])"
proof (induction "w - j" arbitrary: j result)
  case 0
  then have "\<not> j * w + col < w * w"
    by simp
  then have "\<not> int (j * w + col) < g_elements g"
    by (rule not_below_elements [OF assms(2)])
  moreover have "{j..<w} = {}"
    using 0 by simp
  ultimately show ?case
    by (subst mul_inner.simps) simp
next
  case (Suc n)
  then have lt: "j < w" by simp
  let ?x = "a ! (row * w + j)" and ?y = "b ! (j * w + col)"
  let ?result' = "result[c := result ! c + ?x * ?y]"
  have ia: "row * w + j < w * w" and ib: "j * w + col < w * w"
    using assms(6,7) lt by (simp_all add: cell_index_bound)
  have cond: "int (j * w + col) < g_elements g"
    using ib by (rule below_elements [OF assms(2)])
  have rda: "rd a (int (row * w + j)) = Inr ?x"
    by (rule rd_in_range) (simp add: ia assms(3))
  have rdb: "rd b (int (j * w + col)) = Inr ?y"
    by (rule rd_in_range) (simp add: ib assms(4))
  have rdr: "rd result (int c) = Inr (result ! c)"
    by (rule rd_in_range) (simp add: assms(5) Suc.prems(1))
  have wrr: "wr result (int c) (result ! c + ?x * ?y) = Inr ?result'"
    by (rule wr_in_range) (simp add: assms(5) Suc.prems(1))
  have nxt: "int (row * w + j) + 1 = int (row * w + Suc j)"
    "int (j * w + col) + g_width g = int (Suc j * w + col)"
    using assms(1) by simp_all
  have step: "mul_inner g a b (int c) (int (row * w + j)) (int (j * w + col)) result =
      mul_inner g a b (int c) (int (row * w + Suc j)) (int (Suc j * w + col)) ?result'"
    by (subst mul_inner.simps) (simp only: cond rda rdb rdr wrr nxt if_True sum.case)
  have "mul_inner g a b (int c) (int (row * w + Suc j)) (int (Suc j * w + col)) ?result' =
      Inr (?result'[c := ?result' ! c +
        (\<Sum>k = Suc j..<w. a ! (row * w + k) * b ! (k * w + col))])"
    using Suc.hyps(2) Suc.prems lt by (intro Suc.hyps(1)) simp_all
  moreover have "?result' ! c = result ! c + ?x * ?y"
    using assms(5) Suc.prems(1) by simp
  moreover have "(\<Sum>k = j..<w. a ! (row * w + k) * b ! (k * w + col)) =
      ?x * ?y + (\<Sum>k = Suc j..<w. a ! (row * w + k) * b ! (k * w + col))"
    using lt by (simp add: sum.atLeast_Suc_lessThan)
  ultimately show ?case
    using step by (simp add: add.assoc)
qed

lemma mul_cell_spec:
  assumes "0 < w" and "g_width g = int w" and "g_elements g = int (w * w)"
    and "length a = w * w" and "length b = w * w"
    and "c < w * w" and "length result = w * w"
  shows "mul_cell g a b (int c) result = Inr (result[c := result ! c + dot_product w a b c])"
proof -
  have row: "c div w < w"
    using assms(1,6) by (simp add: less_mult_imp_div_less)
  have col: "c mod w < w"
    using assms(1) by simp
  have d: "int c sdiv int w = int (c div w)"
    using assms(1) by (simp add: sdiv_nonneg zdiv_int)
  have m: "int c smod int w = int (c mod w)"
    using assms(1) by (simp add: smod_nonneg zmod_int)
  have fr: "int (c div w) * int w < int (w * w)"
  proof -
    have "c div w * w \<le> c" by simp
    then have "c div w * w < w * w" using assms(6) by linarith
    then show ?thesis by (metis of_nat_less_iff of_nat_mult)
  qed
  have "mul_cell g a b (int c) result =
      mul_inner g a b (int c) (int (c div w * w + 0)) (int (0 * w + c mod w)) result"
    using assms(1,2,3) fr by (simp add: mul_cell_def d m)
  also have "\<dots> = Inr (result[c := result ! c +
      (\<Sum>k = 0..<w. a ! (c div w * w + k) * b ! (k * w + c mod w))])"
    using assms by (intro mul_inner_spec row col) simp_all
  finally show ?thesis
    by (simp add: dot_product_def)
qed

lemma mul_loop_spec:
  assumes "0 < w" and "g_width g = int w" and "g_elements g = int (w * w)"
    and "length a = w * w" and "length b = w * w"
  shows "length result = w * w \<Longrightarrow> c \<le> w * w \<Longrightarrow>
    mul_loop g a b (int c) result =
      Inr (take c result @ map (\<lambda>i. result ! i + dot_product w a b i) [c..<w * w])"
proof (induction "w * w - c" arbitrary: c result)
  case 0
  then have "\<not> c < w * w"
    by simp
  then have "\<not> int c < g_elements g"
    by (rule not_below_elements [OF assms(3)])
  then show ?case
    using 0 by (subst mul_loop.simps) simp
next
  case (Suc n)
  then have lt: "c < w * w" by simp
  then have cond: "int c < g_elements g"
    by (rule below_elements [OF assms(3)])
  let ?result' = "result[c := result ! c + dot_product w a b c]"
  have cell: "mul_cell g a b (int c) result = Inr ?result'"
    using assms lt Suc.prems(1) by (intro mul_cell_spec)
  have step: "mul_loop g a b (int c) result = mul_loop g a b (int (Suc c)) ?result'"
    by (subst mul_loop.simps) (simp add: cond cell add.commute)
  have "mul_loop g a b (int (Suc c)) ?result' =
      Inr (take (Suc c) ?result' @
        map (\<lambda>i. ?result' ! i + dot_product w a b i) [Suc c..<w * w])"
    using Suc.hyps(2) Suc.prems lt by (intro Suc.hyps(1)) simp_all
  moreover have "take (Suc c) ?result' = take c result @ [result ! c + dot_product w a b c]"
    using Suc.prems(1) lt by (simp add: take_Suc_conv_app_nth)
  moreover have "map (\<lambda>i. ?result' ! i + dot_product w a b i) [Suc c..<w * w] =
      map (\<lambda>i. result ! i + dot_product w a b i) [Suc c..<w * w]"
    by (intro map_cong refl) simp
  moreover have "[c..<w * w] = c # [Suc c..<w * w]"
    using lt by (simp add: upt_conv_Cons)
  ultimately show ?case
    using step by simp
qed

lemma matrix_mul_product:
  assumes "square_context g w" and "length a = w * w" and "length b = w * w"
  shows "matrix_mul g a b = Inr (matrix_product w a b)"
proof (cases "w = 0")
  case True
  with assms(1) show ?thesis
    by (subst matrix_mul_def, subst mul_loop.simps)
       (simp add: square_context_def new_matrix_def matrix_product_def)
next
  case False
  then have pos: "0 < w" by simp
  have gw: "g_width g = int w" and ge: "g_elements g = int (w * w)"
    using assms(1) by (simp_all add: square_context_def)
  have nm: "new_matrix g = replicate (w * w) 0"
    by (simp only: new_matrix_def ge nat_int)
  have "matrix_mul g a b =
      Inr (take 0 (new_matrix g) @
        map (\<lambda>i. new_matrix g ! i + dot_product w a b i) [0..<w * w])"
    unfolding matrix_mul_def
    using mul_loop_spec [OF pos gw ge assms(2,3), of "new_matrix g" 0]
    by (simp add: nm)
  moreover have "map (\<lambda>i. new_matrix g ! i + dot_product w a b i) [0..<w * w] =
      map (dot_product w a b) [0..<w * w]"
    by (intro map_cong refl) (simp add: nm)
  ultimately show ?thesis
    by (simp add: matrix_product_def)
qed

subsection \<open>Identity matrix and exponentiation\<close>

lemma diagonal_index:
  fixes i j w :: nat
  assumes "i < w"
  shows "j = i * w + i \<longleftrightarrow> j div w = i \<and> j mod w = i"
proof
  assume "j = i * w + i"
  with assms show "j div w = i \<and> j mod w = i" by simp
next
  assume "j div w = i \<and> j mod w = i"
  then have "j div w * w + j mod w = i * w + i" by simp
  then show "j = i * w + i" by simp
qed

lemma identity_loop_spec:
  assumes "g_width g = int w"
  shows "length matrix = w * w \<Longrightarrow> i \<le> w \<Longrightarrow>
    \<exists>r. identity_loop g (int i) matrix = Inr r \<and> length r = w * w \<and>
      (\<forall>j<w * w. r ! j = (if i \<le> j div w \<and> j div w = j mod w then 1 else matrix ! j))"
proof (induction "w - i" arbitrary: i matrix)
  case 0
  then have eq: "i = w" by simp
  then have stop: "\<not> int i < g_width g"
    using assms by simp
  have "j div w < w" if "j < w * w" for j
    using that by (rule less_mult_imp_div_less)
  then have "\<And>j. j < w * w \<Longrightarrow> \<not> i \<le> j div w"
    unfolding eq by (simp add: not_le)
  with stop "0.prems"(1) show ?case
    by (subst identity_loop.simps) simp
next
  case (Suc n)
  then have lt: "i < w" by simp
  let ?matrix' = "matrix[i * w + i := 1]"
  have inb: "i * w + i < length matrix"
    using lt Suc.prems(1) by (simp add: cell_index_bound)
  have wrm: "wr matrix (int (i * w + i)) 1 = Inr ?matrix'"
    using inb by (rule wr_in_range)
  have step: "identity_loop g (int i) matrix = identity_loop g (int (Suc i)) ?matrix'"
    using assms lt wrm by (subst identity_loop.simps) (simp add: add.commute)
  have "n = w - Suc i" using Suc.hyps(2) by simp
  moreover have "length ?matrix' = w * w" using Suc.prems(1) by simp
  moreover have "Suc i \<le> w" using lt by simp
  ultimately obtain r where r: "identity_loop g (int (Suc i)) ?matrix' = Inr r"
    "length r = w * w"
    "\<forall>j<w * w. r ! j = (if Suc i \<le> j div w \<and> j div w = j mod w then 1 else ?matrix' ! j)"
    using Suc.hyps(1) [of "Suc i" ?matrix'] by blast
  have "r ! j = (if i \<le> j div w \<and> j div w = j mod w then 1 else matrix ! j)"
    if "j < w * w" for j
  proof (cases "j = i * w + i")
    case True
    then have "j div w = i" and "j mod w = i"
      using diagonal_index [OF lt, of j] by simp_all
    then show ?thesis
      using r(3) that True inb by simp
  next
    case False
    then have "\<not> (j div w = i \<and> j mod w = i)"
      using diagonal_index [OF lt, of j] by simp
    then have "(Suc i \<le> j div w \<and> j div w = j mod w) = (i \<le> j div w \<and> j div w = j mod w)"
      by auto
    then show ?thesis
      using r(3) that False by simp
  qed
  then show ?case
    using step r(1,2) by simp
qed

lemma new_matrix_square: "square_context g w \<Longrightarrow> new_matrix g = replicate (w * w) 0"
  by (simp add: square_context_def new_matrix_def flip: of_nat_mult)

lemma identity_matrix_spec:
  assumes "square_context g w"
  shows "identity_matrix g = Inr (identity_spec w)"
proof -
  have gw: "g_width g = int w"
    using assms by (simp add: square_context_def)
  obtain r where r: "identity_matrix g = Inr r" "length r = w * w"
    "\<forall>j<w * w. r ! j = (if j div w = j mod w then 1 else 0)"
    using identity_loop_spec [OF gw, of "new_matrix g" 0]
    by (auto simp: identity_matrix_def new_matrix_square [OF assms])
  have "r = identity_spec w"
    using r(2,3) by (intro nth_equalityI) (simp_all add: identity_spec_def)
  with r(1) show ?thesis by simp
qed

lemma identity_spec_nth:
  assumes "row < w" and "col < w"
  shows "identity_spec w ! (row * w + col) = (if row = col then 1 else 0)"
  using assms cell_index_bound [OF assms] by (simp add: identity_spec_def)

lemma dot_product_zero_left:
  assumes "c < w * w"
  shows "dot_product w (replicate (w * w) 0) b c = 0"
proof -
  have "0 < w" using assms by (cases w) auto
  then have "c div w < w"
    using assms by (simp add: less_mult_imp_div_less)
  then have "replicate (w * w) (0::u32) ! (c div w * w + k) = 0" if "k < w" for k
    using that by (simp add: cell_index_bound)
  then show ?thesis
    by (simp add: dot_product_def)
qed

lemma matrix_product_zero_left: "matrix_product w (replicate (w * w) 0) b = replicate (w * w) 0"
  by (intro nth_equalityI) (simp_all add: matrix_product_def dot_product_zero_left)

lemma matrix_mul_zero_left:
  assumes "square_context g w" and "length b = w * w"
  shows "matrix_mul g (replicate (w * w) 0) b = Inr (replicate (w * w) 0)"
  using matrix_mul_product [OF assms(1) _ assms(2), of "replicate (w * w) 0"]
  by (simp add: matrix_product_zero_left)

lemma pow_loop_zero:
  assumes "square_context g w" and "length matrix = w * w"
  shows "pow_loop g matrix exponent c (replicate (w * w) 0) = Inr (replicate (w * w) 0)"
proof (induction "unat (exponent - 1) - unat c" arbitrary: c)
  case 0
  then have "\<not> c < exponent - 1"
    by (simp add: word_less_nat_alt)
  then show ?case
    by (subst pow_loop.simps) simp
next
  case (Suc n)
  then have below: "unat c < unat (exponent - 1)" by simp
  moreover have "unat (exponent - 1) < 2 ^ 32"
    using unsigned_less [of "exponent - 1"] by simp
  ultimately have "unat (c + 1) = unat c + 1"
    by (simp add: unat_word_ariths)
  then have "n = unat (exponent - 1) - unat (c + 1)"
    using Suc.hyps(2) by simp
  then have "pow_loop g matrix exponent (c + 1) (replicate (w * w) 0) = Inr (replicate (w * w) 0)"
    by (rule Suc.hyps(1))
  then show ?case
    by (subst pow_loop.simps) (simp add: matrix_mul_zero_left [OF assms])
qed

lemma matrix_pow_zero_exponent: "matrix_pow g matrix 0 = identity_matrix g"
  by (simp add: matrix_pow_def pow_loop.simps)

lemma matrix_pow_positive_exponent:
  assumes "square_context g w" and "length matrix = w * w" and "exponent \<noteq> 0"
  shows "matrix_pow g matrix exponent = Inr (replicate (w * w) 0)"
  using assms(3)
  by (simp add: matrix_pow_def new_matrix_square [OF assms(1)] pow_loop_zero [OF assms(1,2)])

lemma of_nat_u32_nonzero: "1 \<le> k \<Longrightarrow> k < 2 ^ 32 \<Longrightarrow> (of_nat k :: u32) \<noteq> 0"
  using of_nat_neq_0 [of k, where 'a = 32] by simp

lemma one_le_u32: "(1 \<le> (e::u32)) = (e \<noteq> 0)"
  by (simp add: word_le_nat_alt unat_eq_zero Suc_le_eq unat_gt_0)


subsection \<open>Identity as neutral element\<close>

lemma dot_product_identity_right:
  assumes "c < w * w"
  shows "dot_product w m (identity_spec w) c = m ! c"
proof -
  have pos: "0 < w" using assms by (cases w) auto
  then have col: "c mod w < w" by simp
  have "dot_product w m (identity_spec w) c =
      (\<Sum>k = 0..<w. if k = c mod w then m ! (c div w * w + k) else 0)"
    unfolding dot_product_def
    by (intro sum.cong refl) (simp add: identity_spec_nth col)
  also have "\<dots> = m ! (c div w * w + c mod w)"
    using col by simp
  finally show ?thesis by simp
qed

lemma dot_product_identity_left:
  assumes "c < w * w"
  shows "dot_product w (identity_spec w) m c = m ! c"
proof -
  have pos: "0 < w" using assms by (cases w) auto
  then have row: "c div w < w"
    using assms by (simp add: less_mult_imp_div_less)
  have "dot_product w (identity_spec w) m c =
      (\<Sum>k = 0..<w. if c div w = k then m ! (k * w + c mod w) else 0)"
    unfolding dot_product_def
    by (intro sum.cong refl) (simp add: identity_spec_nth row)
  also have "\<dots> = m ! (c div w * w + c mod w)"
    using row by simp
  finally show ?thesis by simp
qed

lemma matrix_product_identity_right:
  "length m = w * w \<Longrightarrow> matrix_product w m (identity_spec w) = m"
  by (intro nth_equalityI) (simp_all add: matrix_product_def dot_product_identity_right)

lemma matrix_product_identity_left:
  "length m = w * w \<Longrightarrow> matrix_product w (identity_spec w) m = m"
  by (intro nth_equalityI) (simp_all add: matrix_product_def dot_product_identity_left)

lemma length_identity_spec: "length (identity_spec w) = w * w"
  by (simp add: identity_spec_def)

subsection \<open>Random matrices\<close>

lemma fast_rand_elements: "g_elements (snd (fast_rand g)) = g_elements g"
  by (simp add: fast_rand_def Let_def)

lemma draws_Suc:
  "draws (Suc k) g =
     (fst (fast_rand g) # fst (draws k (snd (fast_rand g))), snd (draws k (snd (fast_rand g))))"
  by (simp add: draws.simps(2) Let_def split: prod.splits)

lemma length_draws: "length (fst (draws k g)) = k"
  by (induction k arbitrary: g) (simp_all add: draws_Suc)

lemma draws_globals: "\<exists>s. snd (draws k g) = g\<lparr>g_seed := s\<rparr>"
proof (induction k arbitrary: g)
  case 0
  have "g = g\<lparr>g_seed := g_seed g\<rparr>" by simp
  then show ?case by (metis draws.simps(1) snd_conv)
next
  case (Suc k)
  obtain s where "snd (draws k (snd (fast_rand g))) = (snd (fast_rand g))\<lparr>g_seed := s\<rparr>"
    using Suc by blast
  then have "snd (draws (Suc k) g) = g\<lparr>g_seed := s\<rparr>"
    by (simp only: draws_Suc snd_conv) (simp add: fast_rand_def Let_def)
  then show ?case by blast
qed

lemma random_loop_spec:
  assumes "length matrix = n"
  shows "g_elements g = int n \<Longrightarrow> i \<le> n \<Longrightarrow>
    random_loop (int i) matrix g =
      Inr (take i matrix @ fst (draws (n - i) g), snd (draws (n - i) g))"
  using assms
proof (induction "n - i" arbitrary: i matrix g)
  case 0
  then show ?case
    by (subst random_loop.simps) simp
next
  case (Suc k)
  then have lt: "i < n" by simp
  obtain v g' where fr: "fast_rand g = (v, g')"
    by (cases "fast_rand g")
  then have ge': "g_elements g' = int n"
    using fast_rand_elements [of g] Suc.prems(1) by simp
  let ?matrix' = "matrix[i := v]"
  have wrm: "wr matrix (int i) v = Inr ?matrix'"
    using lt Suc.prems(3) by (simp add: wr_in_range)
  have step: "random_loop (int i) matrix g = random_loop (int (Suc i)) ?matrix' g'"
    using Suc.prems(1) lt by (subst random_loop.simps) (simp add: fr wrm add.commute)
  have "random_loop (int (Suc i)) ?matrix' g' =
      Inr (take (Suc i) ?matrix' @ fst (draws (n - Suc i) g'), snd (draws (n - Suc i) g'))"
    using Suc.hyps(2) Suc.prems lt ge' by (intro Suc.hyps(1)) simp_all
  moreover have "take (Suc i) ?matrix' = take i matrix @ [v]"
    using Suc.prems(3) lt by (simp add: take_Suc_conv_app_nth)
  moreover have "n - i = Suc (n - Suc i)"
    using lt by simp
  ultimately show ?case
    using step by (simp add: fr draws_Suc)
qed

lemma random_matrix_draws:
  "random_matrix seed g = Inr (draws (nat (g_elements g)) (set_seed seed g))"
proof (cases "0 \<le> g_elements g")
  case True
  then have "g_elements (set_seed seed g) = int (nat (g_elements g))"
    by (simp add: set_seed_def)
  then show ?thesis
    using random_loop_spec [of "new_matrix g" "nat (g_elements g)" "set_seed seed g" 0]
    by (simp add: random_matrix_def new_matrix_def)
next
  case False
  then show ?thesis
    by (subst random_matrix_def, subst random_loop.simps)
       (simp add: set_seed_def new_matrix_def)
qed

lemma random_matrix_twice:
  "\<exists>m g'. random_matrix seed g = Inr (m, g') \<and> random_matrix seed g' = Inr (m, g') \<and>
     length m = nat (g_elements g)"
proof -
  let ?n = "nat (g_elements g)"
  obtain m g' where d: "draws ?n (set_seed seed g) = (m, g')"
    by (cases "draws ?n (set_seed seed g)")
  obtain s where "g' = (set_seed seed g)\<lparr>g_seed := s\<rparr>"
    using draws_globals [of ?n "set_seed seed g"] d by auto
  then have "g_elements g' = g_elements g" and "set_seed seed g' = set_seed seed g"
    by (simp_all add: set_seed_def)
  then have "random_matrix seed g' = Inr (m, g')"
    by (simp add: random_matrix_draws d)
  moreover have "length m = ?n"
    using length_draws [of ?n "set_seed seed g"] d by simp
  ultimately show ?thesis
    by (simp add: random_matrix_draws d)
qed

lemma draws_values_seed: "g_seed g1 = g_seed g2 \<Longrightarrow> fst (draws k g1) = fst (draws k g2)"
proof (induction k arbitrary: g1 g2)
  case 0
  show ?case by simp
next
  case (Suc k)
  have "fst (fast_rand g1) = fst (fast_rand g2)"
    and "g_seed (snd (fast_rand g1)) = g_seed (snd (fast_rand g2))"
    using Suc.prems by (simp_all add: fast_rand_def Let_def)
  then show ?case
    using Suc.IH [of "snd (fast_rand g1)" "snd (fast_rand g2)"] by (simp add: draws_Suc)
qed

subsection \<open>Worked examples\<close>

lemma product_example: "matrix_product 2 [1, 2, 3, 4] [5, 6, 7, 8] = [19, 22, 43, 50]"
  by code_simp

lemma draws_example:
  "fst (draws 9 (set_seed 42 initial_globals)) =
     [175, 400, 17869, 30056, 16083, 12879, 8016, 7644, 15809]"
  by code_simp

lemma square_context_set_dimensions: "square_context (set_dimensions (int n) g) n"
  by (simp add: square_context_def set_dimensions_def)

section \<open>The claims\<close>

text \<open>
  Claim C1. Under a dimension context of order \<open>n \<ge> 1\<close>, \<open>matrix_mul\<close> applied to two
  row-major buffers of \<open>n * n\<close> cells returns a new buffer of \<open>n * n\<close> cells in which cell
  \<open>c\<close>, with \<open>row = c div n\<close> and \<open>col = c mod n\<close>, is the sum over \<open>k\<close> in \<open>[0, n)\<close> of
  \<open>a[row * n + k] * b[k * n + col]\<close>, every sum and product taken modulo \<open>2 ^ 32\<close>. At order 2
  the product of \<open>[1,2,3,4]\<close> and \<open>[5,6,7,8]\<close> is \<open>[19,22,43,50]\<close>.
\<close>

theorem matrix_mul_is_matrix_product:
  assumes "square_context g n" and "1 \<le> n" and "length a = n * n" and "length b = n * n"
  shows "\<exists>result. matrix_mul g a b = Inr result \<and> length result = n * n \<and>
    (\<forall>c<n * n. result ! c = (\<Sum>k = 0..<n. a ! (c div n * n + k) * b ! (k * n + c mod n))) \<and>
    (n = 2 \<and> a = [1, 2, 3, 4] \<and> b = [5, 6, 7, 8] \<longrightarrow> result = [19, 22, 43, 50])"
proof -
  have "matrix_mul g a b = Inr (matrix_product n a b)"
    using assms(1,3,4) by (rule matrix_mul_product)
  moreover have "length (matrix_product n a b) = n * n"
    by (simp add: matrix_product_def)
  moreover have "\<forall>c<n * n. matrix_product n a b ! c =
      (\<Sum>k = 0..<n. a ! (c div n * n + k) * b ! (k * n + c mod n))"
    by (simp add: matrix_product_def dot_product_def)
  moreover have "n = 2 \<and> a = [1, 2, 3, 4] \<and> b = [5, 6, 7, 8] \<longrightarrow>
      matrix_product n a b = [19, 22, 43, 50]"
    using product_example by blast
  ultimately show ?thesis by blast
qed

theorem matrix_mul_is_matrix_product_witness:
  "square_context (set_dimensions 2 initial_globals) 2 \<and>
   matrix_mul (set_dimensions 2 initial_globals) [1, 2, 3, 4] [5, 6, 7, 8] =
     Inr [19, 22, 43, 50]"
proof -
  have ctx: "square_context (set_dimensions 2 initial_globals) 2"
    using square_context_set_dimensions [of 2 initial_globals] by simp
  show ?thesis
    using ctx matrix_mul_is_matrix_product [OF ctx, of "[1, 2, 3, 4]" "[5, 6, 7, 8]"]
    by auto
qed

text \<open>
  Claim C2. The specification and the comment in the body of \<open>matrix_pow\<close> say that
  \<open>matrix_pow m 1\<close> is \<open>m\<close> and that \<open>[1,2,3,4]\<close> to the power 4 at order 2 is
  \<open>[199,290,435,634]\<close>, the four-fold product. The function returns the zero matrix at both
  inputs: its accumulator starts as \<open>new_matrix\<close>, not as a copy of \<open>m\<close>. Three calls of
  \<open>matrix_mul\<close> starting from \<open>m\<close> do produce the documented value.
\<close>

theorem matrix_pow_misses_worked_example:
  "matrix_pow (set_dimensions 2 initial_globals) [1, 2, 3, 4] 4 = Inr [0, 0, 0, 0] \<and>
   matrix_pow (set_dimensions 2 initial_globals) [1, 2, 3, 4] 1 = Inr [0, 0, 0, 0] \<and>
   matrix_mul (set_dimensions 2 initial_globals) [1, 2, 3, 4] [1, 2, 3, 4] =
     Inr [7, 10, 15, 22] \<and>
   matrix_mul (set_dimensions 2 initial_globals) [7, 10, 15, 22] [1, 2, 3, 4] =
     Inr [37, 54, 81, 118] \<and>
   matrix_mul (set_dimensions 2 initial_globals) [37, 54, 81, 118] [1, 2, 3, 4] =
     Inr [199, 290, 435, 634]"
proof -
  have ctx: "square_context (set_dimensions 2 initial_globals) 2"
    using square_context_set_dimensions [of 2 initial_globals] by simp
  have zero: "matrix_pow (set_dimensions 2 initial_globals) [1, 2, 3, 4] e = Inr [0, 0, 0, 0]"
    if "e \<noteq> 0" for e
    using matrix_pow_positive_exponent [OF ctx _ that, of "[1, 2, 3, 4]"]
    by (simp add: numeral_eq_Suc)
  have "matrix_mul (set_dimensions 2 initial_globals) [1, 2, 3, 4] [1, 2, 3, 4] =
      Inr [7, 10, 15, 22]"
    by code_simp
  moreover have "matrix_mul (set_dimensions 2 initial_globals) [7, 10, 15, 22] [1, 2, 3, 4] =
      Inr [37, 54, 81, 118]"
    by code_simp
  moreover have "matrix_mul (set_dimensions 2 initial_globals) [37, 54, 81, 118] [1, 2, 3, 4] =
      Inr [199, 290, 435, 634]"
    by code_simp
  ultimately show ?thesis
    using zero [of 4] zero [of 1] by simp
qed

text \<open>
  Claim C3. Under a dimension context of order \<open>n \<ge> 1\<close> (so that the element count is at
  least one), for every matrix \<open>m\<close> of that context and every exponent at least one,
  \<open>matrix_pow\<close> returns the all-zero matrix, the value of \<open>new_matrix\<close>, whatever \<open>m\<close> holds.
\<close>

theorem matrix_pow_positive_is_zero_matrix:
  assumes "square_context g n" and "1 \<le> n" and "length m = n * n" and "1 \<le> exponent"
  shows "matrix_pow g m exponent = Inr (new_matrix g) \<and> new_matrix g = replicate (n * n) 0"
proof -
  have "exponent \<noteq> 0"
    using assms(4) by (simp add: one_le_u32)
  with assms(1,3) have "matrix_pow g m exponent = Inr (replicate (n * n) 0)"
    by (rule matrix_pow_positive_exponent)
  then show ?thesis
    by (simp add: new_matrix_square [OF assms(1)])
qed

theorem matrix_pow_positive_is_zero_matrix_witness:
  "square_context (set_dimensions 2 initial_globals) 2 \<and> (1::u32) \<le> 3 \<and>
   matrix_pow (set_dimensions 2 initial_globals) [1, 2, 3, 4] 3 = Inr [0, 0, 0, 0]"
proof -
  have ctx: "square_context (set_dimensions 2 initial_globals) 2"
    using square_context_set_dimensions [of 2 initial_globals] by simp
  have e: "(1::u32) \<le> 3" by simp
  show ?thesis
    using ctx e matrix_pow_positive_is_zero_matrix [OF ctx _ _ e, of "[1, 2, 3, 4]"]
    by (simp add: numeral_eq_Suc)
qed

text \<open>
  Claim C4. Under a dimension context of order \<open>n\<close>, \<open>matrix_pow m 0\<close> returns the identity
  matrix, zero everywhere except for the ones on the diagonal, whatever \<open>m\<close> holds.
\<close>

theorem matrix_pow_zero_is_identity:
  assumes "square_context g n"
  shows "\<exists>r. matrix_pow g m 0 = Inr r \<and> identity_matrix g = Inr r \<and> length r = n * n \<and>
    (\<forall>row<n. \<forall>col<n. r ! (row * n + col) = (if row = col then 1 else 0))"
proof -
  have "identity_matrix g = Inr (identity_spec n)"
    using assms by (rule identity_matrix_spec)
  then show ?thesis
    by (simp add: matrix_pow_zero_exponent length_identity_spec identity_spec_nth)
qed

theorem matrix_pow_zero_is_identity_witness:
  "square_context (set_dimensions 2 initial_globals) 2 \<and>
   (\<exists>r. matrix_pow (set_dimensions 2 initial_globals) [5, 6, 7, 8] 0 = Inr r \<and>
      identity_matrix (set_dimensions 2 initial_globals) = Inr r \<and> length r = 2 * 2 \<and>
      (\<forall>row<2. \<forall>col<2. r ! (row * 2 + col) = (if row = col then 1 else 0)))"
proof -
  have ctx: "square_context (set_dimensions 2 initial_globals) 2"
    using square_context_set_dimensions [of 2 initial_globals] by simp
  show ?thesis
    using ctx matrix_pow_zero_is_identity [OF ctx, of "[5, 6, 7, 8]"]
    by blast
qed

text \<open>
  Claim C5. Under a dimension context of order \<open>n\<close>, for every matrix \<open>m\<close> of that context
  and every \<open>k \<ge> 1\<close> whose successor is still an exponent (a \<^verbatim>\<open>uint32_t\<close>),
  \<open>matrix_pow m (k + 1)\<close> returns the same matrix as \<open>matrix_mul (matrix_pow m k) m\<close>.
\<close>

theorem matrix_pow_successor:
  assumes "square_context g n" and "length m = n * n" and "1 \<le> k" and "k + 1 < 2 ^ 32"
  shows "\<exists>p r. matrix_pow g m (of_nat k) = Inr p \<and> matrix_mul g p m = Inr r \<and>
    matrix_pow g m (of_nat (k + 1)) = Inr r"
proof -
  have "(of_nat k :: u32) \<noteq> 0"
    using assms(3,4) by (intro of_nat_u32_nonzero) simp_all
  with assms(1,2) have "matrix_pow g m (of_nat k) = Inr (replicate (n * n) 0)"
    by (rule matrix_pow_positive_exponent)
  moreover have "(of_nat (k + 1) :: u32) \<noteq> 0"
    using assms(4) by (intro of_nat_u32_nonzero) simp_all
  with assms(1,2) have "matrix_pow g m (of_nat (k + 1)) = Inr (replicate (n * n) 0)"
    by (rule matrix_pow_positive_exponent)
  moreover have "matrix_mul g (replicate (n * n) 0) m = Inr (replicate (n * n) 0)"
    using assms(1,2) by (rule matrix_mul_zero_left)
  ultimately show ?thesis by blast
qed

theorem matrix_pow_successor_witness:
  "square_context (set_dimensions 2 initial_globals) 2 \<and>
   (\<exists>p r. matrix_pow (set_dimensions 2 initial_globals) [1, 2, 3, 4] 1 = Inr p \<and>
      matrix_mul (set_dimensions 2 initial_globals) p [1, 2, 3, 4] = Inr r \<and>
      matrix_pow (set_dimensions 2 initial_globals) [1, 2, 3, 4] 2 = Inr r)"
proof -
  have ctx: "square_context (set_dimensions 2 initial_globals) 2"
    using square_context_set_dimensions [of 2 initial_globals] by simp
  show ?thesis
    using ctx matrix_pow_successor [OF ctx, of "[1, 2, 3, 4]" 1]
    by simp
qed

text \<open>
  Claim C6. Under a dimension context of order \<open>n \<ge> 1\<close>, the identity matrix is neutral on
  both sides: for every matrix \<open>m\<close> of that context, \<open>matrix_mul m identity\<close> and
  \<open>matrix_mul identity m\<close> both return \<open>m\<close>.
\<close>

theorem identity_matrix_neutral:
  assumes "square_context g n" and "1 \<le> n" and "length m = n * n"
  shows "\<exists>i. identity_matrix g = Inr i \<and> matrix_mul g m i = Inr m \<and> matrix_mul g i m = Inr m"
proof -
  have "identity_matrix g = Inr (identity_spec n)"
    using assms(1) by (rule identity_matrix_spec)
  moreover have "matrix_mul g m (identity_spec n) = Inr m"
    using matrix_mul_product [OF assms(1,3) length_identity_spec] assms(3)
    by (simp add: matrix_product_identity_right)
  moreover have "matrix_mul g (identity_spec n) m = Inr m"
    using matrix_mul_product [OF assms(1) length_identity_spec assms(3)] assms(3)
    by (simp add: matrix_product_identity_left)
  ultimately show ?thesis by blast
qed

theorem identity_matrix_neutral_witness:
  "square_context (set_dimensions 2 initial_globals) 2 \<and>
   (\<exists>i. identity_matrix (set_dimensions 2 initial_globals) = Inr i \<and>
      matrix_mul (set_dimensions 2 initial_globals) [1, 2, 3, 4] i = Inr [1, 2, 3, 4] \<and>
      matrix_mul (set_dimensions 2 initial_globals) i [1, 2, 3, 4] = Inr [1, 2, 3, 4])"
proof -
  have ctx: "square_context (set_dimensions 2 initial_globals) 2"
    using square_context_set_dimensions [of 2 initial_globals] by simp
  show ?thesis
    using ctx identity_matrix_neutral [OF ctx, of "[1, 2, 3, 4]"]
    by simp
qed

text \<open>
  Claim C7. \<open>random_matrix\<close> sets the seed before it draws, so its matrix is a function of
  the seed argument and the element count alone: from any two states of the globals with
  the same element count, calls with the same seed return the same matrix, cell for cell,
  and so does a second call made right after the first. The matrix has \<open>g_elements\<close>
  cells; at order 3 the calls with seed 42 return the same nine values.
\<close>

theorem random_matrix_deterministic:
  assumes "g_elements g1 = g_elements g2"
  shows "\<exists>m g1' g2'. random_matrix seed g1 = Inr (m, g1') \<and>
    random_matrix seed g2 = Inr (m, g2') \<and> random_matrix seed g1' = Inr (m, g1') \<and>
    length m = nat (g_elements g1) \<and>
    (seed = 42 \<and> g_elements g1 = 9 \<longrightarrow>
       m = [175, 400, 17869, 30056, 16083, 12879, 8016, 7644, 15809])"
proof -
  let ?n = "nat (g_elements g1)"
  obtain m g1' where first: "random_matrix seed g1 = Inr (m, g1')"
    and again: "random_matrix seed g1' = Inr (m, g1')" and len: "length m = ?n"
    using random_matrix_twice [of seed g1] by blast
  have m: "m = fst (draws ?n (set_seed seed g1))"
    using first by (simp add: random_matrix_draws)
  also have "\<dots> = fst (draws ?n (set_seed seed g2))"
    by (rule draws_values_seed) (simp add: set_seed_def)
  finally have "random_matrix seed g2 = Inr (m, snd (draws ?n (set_seed seed g2)))"
    by (simp add: random_matrix_draws assms [symmetric])
  moreover have "m = [175, 400, 17869, 30056, 16083, 12879, 8016, 7644, 15809]"
    if "seed = 42" and "g_elements g1 = 9"
  proof -
    have "m = fst (draws 9 (set_seed 42 g1))"
      using m that by simp
    also have "\<dots> = fst (draws 9 (set_seed 42 initial_globals))"
      by (rule draws_values_seed) (simp add: set_seed_def)
    finally show ?thesis
      by (simp only: draws_example)
  qed
  ultimately show ?thesis
    using first again len by blast
qed

theorem random_matrix_deterministic_witness:
  "g_elements (set_dimensions 3 initial_globals) =
     g_elements (set_seed 99 (set_dimensions 3 initial_globals)) \<and>
   (\<exists>g1' g2'. random_matrix 42 (set_dimensions 3 initial_globals) =
        Inr ([175, 400, 17869, 30056, 16083, 12879, 8016, 7644, 15809], g1') \<and>
      random_matrix 42 (set_seed 99 (set_dimensions 3 initial_globals)) =
        Inr ([175, 400, 17869, 30056, 16083, 12879, 8016, 7644, 15809], g2') \<and>
      random_matrix 42 g1' =
        Inr ([175, 400, 17869, 30056, 16083, 12879, 8016, 7644, 15809], g1'))"
proof -
  have same: "g_elements (set_dimensions 3 initial_globals) =
      g_elements (set_seed 99 (set_dimensions 3 initial_globals))"
    by (simp add: set_seed_def)
  have nine: "g_elements (set_dimensions 3 initial_globals) = 9"
    by (simp add: set_dimensions_def initial_globals_def)
  show ?thesis
    using same nine random_matrix_deterministic [OF same, of 42]
    by auto
qed

text \<open>
  Claim C8. For every matrix \<open>m\<close> of the active dimension context and every scalar \<open>s\<close>, the
  sum of \<open>scalar_add m s\<close> is the sum of \<open>m\<close> plus \<open>s\<close> times the element count, modulo
  \<open>2 ^ 32\<close>.
\<close>

theorem get_sum_scalar_add:
  assumes "g_elements g = int (length m)"
  shows "\<exists>r v. scalar_add g m s = Inr r \<and> get_sum g m = Inr v \<and>
    get_sum g r = Inr (v + s * word_of_int (g_elements g))"
proof -
  let ?r = "map (\<lambda>v. v + s) m"
  have "scalar_add g m s = Inr ?r"
    using assms by (rule scalar_add_eq_map)
  moreover have "get_sum g m = Inr (sum_list m)"
    using assms by (rule get_sum_eq_sum_list)
  moreover have "get_sum g ?r = Inr (sum_list ?r)"
    using assms by (intro get_sum_eq_sum_list) simp
  moreover have "sum_list ?r = sum_list m + s * word_of_int (g_elements g)"
    by (simp add: sum_list_add_scalar assms)
  ultimately show ?thesis by simp
qed

theorem get_sum_scalar_add_witness:
  "g_elements (set_dimensions 2 initial_globals) = int (length [1, 2, 3, 4 :: u32]) \<and>
   (\<exists>r. scalar_add (set_dimensions 2 initial_globals) [1, 2, 3, 4] 5 = Inr r \<and>
      get_sum (set_dimensions 2 initial_globals) [1, 2, 3, 4] = Inr 10 \<and>
      get_sum (set_dimensions 2 initial_globals) r = Inr 30)"
proof -
  have ctx: "g_elements (set_dimensions 2 initial_globals) = int (length [1, 2, 3, 4 :: u32])"
    by (simp add: set_dimensions_def initial_globals_def)
  have "get_sum (set_dimensions 2 initial_globals) [1, 2, 3, 4] = Inr 10"
    by (simp add: get_sum_eq_sum_list [OF ctx])
  then show ?thesis
    using ctx get_sum_scalar_add [OF ctx, of 5] by auto
qed

text \<open>
  Claim C9. For every matrix \<open>m\<close> of the active dimension context, \<open>reversed m\<close> returns a
  new matrix whose cell \<open>i\<close>, for every \<open>i\<close> below the element count, is cell
  \<open>element_count - 1 - i\<close> of \<open>m\<close>.
\<close>

theorem reversed_mirrors_index:
  assumes "g_elements g = int n" and "length m = n"
  shows "\<exists>r. reversed g m = Inr r \<and> length r = n \<and> (\<forall>i<n. r ! i = m ! (n - 1 - i))"
proof -
  have "reversed g m = Inr (rev m)"
    using assms by (intro reversed_eq_rev) simp
  moreover have "\<forall>i<n. rev m ! i = m ! (n - 1 - i)"
    using assms(2) by (simp add: rev_nth)
  ultimately show ?thesis
    using assms(2) by simp
qed

theorem reversed_mirrors_index_witness:
  "g_elements (set_dimensions 2 initial_globals) = int 4 \<and>
   reversed (set_dimensions 2 initial_globals) [1, 2, 3, 4] = Inr [4, 3, 2, 1]"
proof -
  have ctx: "g_elements (set_dimensions 2 initial_globals) = int 4"
    by (simp add: set_dimensions_def initial_globals_def)
  obtain r where r: "reversed (set_dimensions 2 initial_globals) [1, 2, 3, 4] = Inr r"
    "length r = 4" "\<forall>i<4. r ! i = [1, 2, 3, 4 :: u32] ! (4 - 1 - i)"
    using reversed_mirrors_index [OF ctx, of "[1, 2, 3, 4]"] by auto
  have "r ! 0 = 4" "r ! 1 = 3" "r ! 2 = 2" "r ! 3 = 1"
    using r(3) by simp_all
  then have "r = [4, 3, 2, 1]"
    using r(2) by (intro nth_equalityI) (auto simp: less_Suc_eq numeral_eq_Suc)
  with ctx r(1) show ?thesis by simp
qed

text \<open>
  Claim C10. For a matrix \<open>m\<close> of the active dimension context: when the element count is at
  least one, \<open>get_minimum m\<close> performs no read outside the buffer and returns a value that
  occurs in \<open>m\<close> and is less than or equal to every element of \<open>m\<close>; when the element count
  is zero its first read, of \<open>m[0]\<close>, is outside the buffer and the result is undefined.
\<close>

theorem get_minimum_least_element:
  assumes "g_elements g = int (length m)"
  shows "if 1 \<le> g_elements g
    then \<exists>v. get_minimum g m = Inr v \<and> v \<in> set m \<and> (\<forall>x\<in>set m. v \<le> x)
    else get_minimum g m = Inl OutOfBounds"
proof (cases "m = []")
  case True
  with assms show ?thesis
    by (simp add: get_minimum_empty)
next
  case False
  then have "get_minimum g m = Inr (Min (set m))"
    using assms by (intro get_minimum_eq_Min)
  moreover have "Min (set m) \<in> set m" and "\<forall>x\<in>set m. Min (set m) \<le> x"
    using False by simp_all
  moreover have "1 \<le> g_elements g"
    using False assms by (cases m) simp_all
  ultimately show ?thesis by simp
qed

theorem get_minimum_least_element_witness:
  "(\<exists>v. get_minimum (set_dimensions 2 initial_globals) [4, 2, 3, 1] = Inr v \<and>
      v \<in> set [4, 2, 3, 1] \<and> (\<forall>x\<in>set [4, 2, 3, 1]. v \<le> x)) \<and>
   get_minimum initial_globals [] = Inl OutOfBounds"
proof -
  have full: "g_elements (set_dimensions 2 initial_globals) = int (length [4, 2, 3, 1 :: u32])"
    by (simp add: set_dimensions_def initial_globals_def)
  have empty: "g_elements initial_globals = int (length ([] :: u32 list))"
    by (simp add: initial_globals_def)
  have one: "1 \<le> g_elements (set_dimensions 2 initial_globals)"
    by (simp add: set_dimensions_def initial_globals_def)
  have none: "\<not> 1 \<le> g_elements initial_globals"
    by (simp add: initial_globals_def)
  show ?thesis
    using get_minimum_least_element [OF full] get_minimum_least_element [OF empty] one none
    by (simp only: if_True if_False simp_thms)
qed

end
